theory Spec2Isabelle
  imports Complex_Main
begin

section \<open>Kasiski examination and language detection\<close>

text \<open>
  A shallow embedding of \<^verbatim>\<open>kasiski_examination.py\<close> and \<^verbatim>\<open>language.py\<close>.
  Python exceptions are values of \<open>error\<close>; a function that can raise returns
  \<open>error + 'a\<close>, with \<open>Inl\<close> for the exception. \<open>OSError\<close> stands for the
  errors of the operating system other than \<^verbatim>\<open>FileNotFoundError\<close>.
\<close>

datatype error =
    ValueError | FileNotFoundError | OSError | JSONDecodeError
  | AttributeError | TypeError | ZeroDivisionError

subsection \<open>Insertion-ordered dictionaries\<close>

text \<open>
  A Python \<^verbatim>\<open>dict\<close> iterates in insertion order, and assigning to a key that is
  already present keeps the key's position. It is an association list here:
  \<open>dict_get\<close> is \<^verbatim>\<open>d.get(k)\<close>, \<open>dict_set\<close> is \<^verbatim>\<open>d[k] = v\<close>.
\<close>

type_synonym ('k, 'v) dict = "('k \<times> 'v) list"

definition dict_get :: "('k, 'v) dict \<Rightarrow> 'k \<Rightarrow> 'v option" where
  "dict_get d k = map_of d k"

fun dict_set :: "'k \<Rightarrow> 'v \<Rightarrow> ('k, 'v) dict \<Rightarrow> ('k, 'v) dict" where
  "dict_set k v [] = [(k, v)]"
| "dict_set k v ((k', v') # d) =
     (if k' = k then (k', v) # d else (k', v') # dict_set k v d)"

subsection \<open>\<^verbatim>\<open>find_repeat_sequences\<close>\<close>

text \<open>
  The body of the inner loop (lines 32 to 36): the slice \<^verbatim>\<open>text[i:i + length]\<close> is
  \<open>take len (drop i text)\<close>; the position is appended to the list of a known
  sequence, and a new sequence starts with the one position.
\<close>

definition record_sequence ::
  "'a list \<Rightarrow> nat \<Rightarrow> ('a list, nat list) dict \<Rightarrow> ('a list, nat list) dict" where
  "record_sequence sequence i sequences =
     (case dict_get sequences sequence of
        Some positions \<Rightarrow> dict_set sequence (positions @ [i]) sequences
      | None \<Rightarrow> dict_set sequence [i] sequences)"

text \<open>
  The inner loop, \<^verbatim>\<open>for i in range(len(text) - length)\<close>. The subtraction on
  \<open>nat\<close> stops at 0, where Python's range over a negative bound is empty.
\<close>

definition scan_length ::
  "'a list \<Rightarrow> nat \<Rightarrow> ('a list, nat list) dict \<Rightarrow> ('a list, nat list) dict" where
  "scan_length text len sequences =
     foldl (\<lambda>seqs i. record_sequence (take len (drop i text)) i seqs)
       sequences [0..<length text - len]"

text \<open>
  The outer loop, \<^verbatim>\<open>for length in range(min_length, len(text) // 2 + 1)\<close>.
\<close>

definition scan_all ::
  "'a list \<Rightarrow> nat list \<Rightarrow> ('a list, nat list) dict \<Rightarrow> ('a list, nat list) dict" where
  "scan_all text lens sequences = foldl (\<lambda>seqs len. scan_length text len seqs) sequences lens"

definition find_repeat_sequences ::
  "'a list \<Rightarrow> int \<Rightarrow> error + ('a list, nat list) dict" where
  "find_repeat_sequences text min_length =
     (if min_length < 2 \<or> min_length \<ge> int (length text div 2) then Inl ValueError
      else Inr (filter (\<lambda>(sequence, positions). length positions > 1)
                  (scan_all text [nat min_length..<length text div 2 + 1] [])))"

subsection \<open>\<^verbatim>\<open>get_spaces\<close>\<close>


subsection \<open>\<^verbatim>\<open>find_factors\<close>\<close>

text \<open>
  The \<^verbatim>\<open>while i*i <= number\<close> loop. Python's \<^verbatim>\<open>%\<close> and \<^verbatim>\<open>//\<close> on integers
  are \<open>mod\<close> and \<open>div\<close> on \<open>int\<close> (both round to the floor). The loop starts at
  \<open>i = 2\<close> and counts up, so it never divides by zero.
\<close>

function find_factors_loop :: "int \<Rightarrow> int \<Rightarrow> int set \<Rightarrow> int set" where
  "find_factors_loop number i factors =
     (if i * i \<le> number
      then find_factors_loop number (i + 1)
             (if number mod i = 0 then insert (number div i) (insert i factors) else factors)
      else factors)"
  by pat_completeness auto
termination
proof (relation "measure (\<lambda>(number, i, factors). nat (number + 1 - i))")
  show "wf (measure (\<lambda>(number, i, factors). nat (number + 1 - i)))" by simp
next
  fix number i :: int and factors :: "int set"
  assume a: "i * i \<le> number"
  have "i \<le> i * i" by (cases "i \<le> 0") (auto simp: mult_le_0_iff intro: order_trans)
  with a have "i \<le> number" by linarith
  then show "((number, i + 1, if number mod i = 0 then insert (number div i) (insert i factors) else factors),
              (number, i, factors)) \<in> measure (\<lambda>(number, i, factors). nat (number + 1 - i))"
    by simp
qed

declare find_factors_loop.simps [simp del]

definition find_factors :: "int \<Rightarrow> error + int set" where
  "find_factors number =
     (if number \<le> 1 then Inl ValueError
      else Inr (insert number (find_factors_loop number 2 {})))"

text \<open>
  What the loop has added when it reaches \<open>i\<close>, for the loop invariant: the divisors
  \<open>j\<close> with \<open>j * j \<le> n\<close> from \<open>i\<close> on, each with its cofactor.
\<close>

definition pair_factors :: "int \<Rightarrow> int \<Rightarrow> int set" where
  "pair_factors n i = {d. \<exists>j. i \<le> j \<and> j * j \<le> n \<and> n mod j = 0 \<and> (d = j \<or> d = n div j)}"

subsection \<open>\<^verbatim>\<open>find_key_lengths\<close>\<close>

text \<open>
  The first loop (lines 88 to 90) extends the list \<^verbatim>\<open>factors\<close> by the elements of the
  set that \<^verbatim>\<open>find_factors\<close> returns, and an exception of \<^verbatim>\<open>find_factors\<close> leaves
  the function. The order in which Python iterates over a set is fixed by the
  interpreter and not by the program, so it is the parameter \<open>iter\<close>.
\<close>

fun collect_factors ::
  "(int set \<Rightarrow> int list) \<Rightarrow> int list \<Rightarrow> int list \<Rightarrow> error + int list" where
  "collect_factors iter [] factors = Inr factors"
| "collect_factors iter (distance # spaces) factors =
     (case find_factors distance of
        Inl e \<Rightarrow> Inl e
      | Inr fs \<Rightarrow> collect_factors iter spaces (factors @ iter fs))"

text \<open>
  The second loop (lines 93 to 95):
  \<^verbatim>\<open>key_lengths[factor] = key_lengths.get(factor, 0) + 1\<close>.
\<close>

definition count_factors :: "'k list \<Rightarrow> ('k, nat) dict" where
  "count_factors factors =
     foldl (\<lambda>key_lengths factor.
              dict_set factor ((case dict_get key_lengths factor of None \<Rightarrow> 0 | Some c \<Rightarrow> c) + 1)
                key_lengths)
       [] factors"

text \<open>
  \<^verbatim>\<open>sorted(items, key=lambda x: x[1], reverse=True)\<close>: Python's sort is stable, also
  with \<^verbatim>\<open>reverse=True\<close>, so it is the stable insertion sort of the library on the
  negated count.
\<close>

definition sorted_by_count :: "('k \<times> nat) list \<Rightarrow> ('k \<times> nat) list" where
  "sorted_by_count items = sort_key (\<lambda>x. - int (snd x)) items"

text \<open>
  \<^verbatim>\<open>n\<close> is \<open>None\<close> or an integer. \<^verbatim>\<open>heapq.nlargest(n, items, key)\<close> is documented
  as \<^verbatim>\<open>sorted(items, key=key, reverse=True)[:n]\<close>, and is empty for \<open>n \<le> 0\<close>.
\<close>

definition find_key_lengths ::
  "(int set \<Rightarrow> int list) \<Rightarrow> int list \<Rightarrow> int option \<Rightarrow> error + (int \<times> nat) list" where
  "find_key_lengths iter spaces n =
     (case collect_factors iter spaces [] of
        Inl e \<Rightarrow> Inl e
      | Inr factors \<Rightarrow>
          (case n of
             None \<Rightarrow> Inr (sorted_by_count (count_factors factors))
           | Some k \<Rightarrow> Inr (take (nat k) (sorted_by_count (count_factors factors)))))"


text \<open>
  The order in which the factors are first met in a list: the keys of the
  tally, in the order of the dictionary.
\<close>

definition first_seen :: "'a list \<Rightarrow> 'a list" where
  "first_seen xs = rev (remdups (rev xs))"

subsection \<open>The folder of frequency tables\<close>

text \<open>
  What \<^verbatim>\<open>json.load\<close> returns: a JSON object, as the dictionary from its keys to its
  values, or a JSON value that is not an object. The keys of an object are strings.
  A value of the object from which Python can subtract (a number, or \<^verbatim>\<open>true\<close> and
  \<^verbatim>\<open>false\<close>, which count as 1 and 0) is \<open>Some\<close> of it, any other value is \<open>None\<close>.
  Numbers are real numbers here, where Python has integers and floats.
\<close>

datatype 'c json = Object "('c list, real option) dict" | NonObject

text \<open>
  The file system as the two modules see it: what \<^verbatim>\<open>os.listdir('frequency_tables')\<close>
  finds, and what \<^verbatim>\<open>open(path, 'r')\<close> followed by \<^verbatim>\<open>json.load\<close> finds at a path.
  The path is interpreted by the file system, not by the program.
\<close>

datatype folder_state = FolderMissing | FolderUnreadable | Folder "string list"

datatype 'c file_state = FileMissing | FileUnreadable | FileMalformed | FileJson "'c json"

record 'c filesystem =
  folder :: folder_state
  file_at :: "string \<Rightarrow> 'c file_state"

definition listdir :: "'c filesystem \<Rightarrow> error + string list" where
  "listdir fs =
     (case folder fs of
        FolderMissing \<Rightarrow> Inl FileNotFoundError
      | FolderUnreadable \<Rightarrow> Inl OSError
      | Folder names \<Rightarrow> Inr names)"

definition endswith :: "string \<Rightarrow> string \<Rightarrow> bool" where
  "endswith s suffix =
     (length suffix \<le> length s \<and> drop (length s - length suffix) s = suffix)"

text \<open>
  \<^verbatim>\<open>_get_available_languages\<close>: \<^verbatim>\<open>file_name[:-5]\<close> for every listed file name that
  ends with \<^verbatim>\<open>.json\<close>. The generator calls \<^verbatim>\<open>os.listdir\<close> when it is first
  asked for a name, and an error of that call reaches whoever iterates.
\<close>

definition get_available_languages :: "'c filesystem \<Rightarrow> error + string list" where
  "get_available_languages fs =
     (case listdir fs of
        Inl e \<Rightarrow> Inl e
      | Inr names \<Rightarrow>
          Inr (map (\<lambda>file_name. take (length file_name - 5) file_name)
                 (filter (\<lambda>file_name. endswith file_name ''.json'') names)))"

text \<open>
  \<^verbatim>\<open>with open(f'frequency_tables/{language}.json', 'r') as fr: load(fr)\<close>.
\<close>

definition open_and_load :: "'c filesystem \<Rightarrow> string \<Rightarrow> error + 'c json" where
  "open_and_load fs language =
     (case file_at fs (''frequency_tables/'' @ language @ ''.json'') of
        FileMissing \<Rightarrow> Inl FileNotFoundError
      | FileUnreadable \<Rightarrow> Inl OSError
      | FileMalformed \<Rightarrow> Inl JSONDecodeError
      | FileJson loaded \<Rightarrow> Inr loaded)"

text \<open>
  Iterating over a Python string gives its characters, each a string of length 1.
\<close>

definition characters :: "'c list \<Rightarrow> 'c list list" where
  "characters s = map (\<lambda>c. [c]) s"

text \<open>
  \<^verbatim>\<open>Counter(xs)\<close>: an element of \<open>xs\<close> is mapped to the number of its occurrences,
  and nothing else is a key.
\<close>

definition Counter :: "'k list \<Rightarrow> 'k \<Rightarrow> nat option" where
  "Counter xs = (\<lambda>k. if k \<in> set xs then Some (count_list xs k) else None)"

subsection \<open>\<^verbatim>\<open>detect_language\<close>\<close>

text \<open>The loop that loads the tables (lines 40 to 43).\<close>

fun load_tables ::
  "'c filesystem \<Rightarrow> string list \<Rightarrow> (string, 'c json) dict \<Rightarrow> error + (string, 'c json) dict" where
  "load_tables fs [] frequency_tables = Inr frequency_tables"
| "load_tables fs (language # languages) frequency_tables =
     (case open_and_load fs language of
        Inl e \<Rightarrow> Inl e
      | Inr loaded \<Rightarrow> load_tables fs languages (dict_set language loaded frequency_tables))"

text \<open>
  The inner loop over the items of one table (lines 52 to 54). In
  \<^verbatim>\<open>abs(frequency - text_frequency[char]) / text_length\<close> the subtraction comes first
  and raises for a value that is not a number; the division raises when the length
  is 0.
\<close>

fun detect_similarity ::
  "('c list \<Rightarrow> nat option) \<Rightarrow> nat \<Rightarrow> ('c list, real option) dict \<Rightarrow> real \<Rightarrow> error + real" where
  "detect_similarity text_frequency text_length [] similarity = Inr similarity"
| "detect_similarity text_frequency text_length ((ch, frequency) # rest) similarity =
     (case text_frequency ch of
        None \<Rightarrow> detect_similarity text_frequency text_length rest similarity
      | Some cnt \<Rightarrow>
          (case frequency of
             None \<Rightarrow> Inl TypeError
           | Some f \<Rightarrow>
               if text_length = 0 then Inl ZeroDivisionError
               else detect_similarity text_frequency text_length rest
                      (similarity + \<bar>f - real cnt\<bar> / real text_length)))"

text \<open>
  The outer loop over the loaded tables (lines 50 to 55); \<^verbatim>\<open>.items()\<close> raises for
  a loaded value that is not an object.
\<close>

fun score_languages ::
  "('c list \<Rightarrow> nat option) \<Rightarrow> nat \<Rightarrow> (string, 'c json) dict \<Rightarrow> (string, real) dict
     \<Rightarrow> error + (string, real) dict" where
  "score_languages text_frequency text_length [] similarities = Inr similarities"
| "score_languages text_frequency text_length ((language, frequency_table) # rest) similarities =
     (case frequency_table of
        NonObject \<Rightarrow> Inl AttributeError
      | Object items \<Rightarrow>
          (case detect_similarity text_frequency text_length items 0 of
             Inl e \<Rightarrow> Inl e
           | Inr similarity \<Rightarrow>
               score_languages text_frequency text_length rest
                 (dict_set language (1 - similarity) similarities)))"

text \<open>
  \<^verbatim>\<open>str.lower\<close> is the parameter \<open>lower\<close>. The counter is built from the lowered
  text, the length is the length of the text as given.
\<close>

definition detect_language ::
  "('c list \<Rightarrow> 'c list) \<Rightarrow> 'c filesystem \<Rightarrow> 'c list \<Rightarrow> string list option
     \<Rightarrow> error + (string, real) dict" where
  "detect_language lower fs text languages =
     (case (case languages of None \<Rightarrow> get_available_languages fs | Some ls \<Rightarrow> Inr ls) of
        Inl e \<Rightarrow> Inl e
      | Inr ls \<Rightarrow>
          (case load_tables fs ls [] of
             Inl e \<Rightarrow> Inl e
           | Inr frequency_tables \<Rightarrow>
               score_languages (Counter (characters (lower text))) (length text)
                 frequency_tables []))"

subsection \<open>\<^verbatim>\<open>is_typical\<close>\<close>

text \<open>The loop of \<^verbatim>\<open>is_typical\<close> (lines 78 to 81), written out in the source a second time.\<close>

fun typical_similarity ::
  "('c list \<Rightarrow> nat option) \<Rightarrow> nat \<Rightarrow> ('c list, real option) dict \<Rightarrow> real \<Rightarrow> error + real" where
  "typical_similarity text_frequency text_length [] similarity = Inr similarity"
| "typical_similarity text_frequency text_length ((ch, frequency) # rest) similarity =
     (case text_frequency ch of
        None \<Rightarrow> typical_similarity text_frequency text_length rest similarity
      | Some cnt \<Rightarrow>
          (case frequency of
             None \<Rightarrow> Inl TypeError
           | Some f \<Rightarrow>
               if text_length = 0 then Inl ZeroDivisionError
               else typical_similarity text_frequency text_length rest
                      (similarity + \<bar>f - real cnt\<bar> / real text_length)))"

definition is_typical ::
  "('c list \<Rightarrow> 'c list) \<Rightarrow> 'c filesystem \<Rightarrow> 'c list \<Rightarrow> string \<Rightarrow> real \<Rightarrow> error + bool" where
  "is_typical lower fs text language threshold =
     (case get_available_languages fs of
        Inl e \<Rightarrow> Inl e
      | Inr available \<Rightarrow>
          if language \<notin> set available then Inl ValueError
          else case open_and_load fs language of
                 Inl e \<Rightarrow> Inl e
               | Inr NonObject \<Rightarrow> Inl AttributeError
               | Inr (Object items) \<Rightarrow>
                   (case typical_similarity (Counter (characters (lower text))) (length text)
                           items 0 of
                      Inl e \<Rightarrow> Inl e
                    | Inr similarity \<Rightarrow> Inr (1 - similarity > threshold)))"

subsection \<open>Example inputs\<close>

text \<open>
  A folder with a table for English, a file that does not parse and a file that
  is no table; the same files in a folder that is missing; and a folder whose
  only entry is a link to a file that does not exist.
\<close>

definition sample_files :: "string \<Rightarrow> char file_state" where
  "sample_files path =
     (if path = ''frequency_tables/english.json''
      then FileJson (Object [(''e'', Some (1 / 2)), (''t'', Some (1 / 4))])
      else if path = ''frequency_tables/broken.json'' then FileMalformed
      else if path = ''frequency_tables/notes.txt'' then FileMalformed
      else FileMissing)"

definition sample_fs :: "char filesystem" where
  "sample_fs =
     \<lparr>folder = Folder [''english.json'', ''broken.json'', ''notes.txt''], file_at = sample_files\<rparr>"

definition missing_fs :: "char filesystem" where
  "missing_fs = \<lparr>folder = FolderMissing, file_at = (\<lambda>path. FileMissing)\<rparr>"

definition dangling_fs :: "char filesystem" where
  "dangling_fs = \<lparr>folder = Folder [''ghost.json''], file_at = (\<lambda>path. FileMissing)\<rparr>"

text \<open>\<^verbatim>\<open>str.lower\<close> on ASCII text.\<close>

definition ascii_lower :: "string \<Rightarrow> string" where
  "ascii_lower s =
     map (\<lambda>c. if 65 \<le> (of_char c :: nat) \<and> (of_char c :: nat) \<le> 90
              then char_of (of_char c + 32 :: nat) else c) s"

subsection \<open>Auxiliary notions\<close>

text \<open>
  The positions a dictionary lists for a key (none when the key is absent), the
  offsets at which the scan looks for a sequence and finds it, and the dictionaries
  with distinct keys and no empty list.
\<close>

definition positions_of :: "('k, 'v list) dict \<Rightarrow> 'k \<Rightarrow> 'v list" where
  "positions_of d k = (case dict_get d k of None \<Rightarrow> [] | Some ps \<Rightarrow> ps)"

definition scanned_offsets :: "'a list \<Rightarrow> 'a list \<Rightarrow> nat list" where
  "scanned_offsets text k =
     filter (\<lambda>i. take (length k) (drop i text) = k) [0..<length text - length k]"

definition filled :: "('k, 'v list) dict \<Rightarrow> bool" where
  "filled d = (distinct (map fst d) \<and> list_all (\<lambda>e. snd e \<noteq> []) d)"

section \<open>Dictionaries\<close>

lemma map_of_dict_set: "map_of (dict_set k v d) = (map_of d)(k \<mapsto> v)"
  by (induction d) (auto simp: fun_eq_iff)

lemma dict_get_dict_set: "dict_get (dict_set k v d) k' = (if k' = k then Some v else dict_get d k')"
  by (simp add: dict_get_def map_of_dict_set)

lemma keys_dict_set:
  "map fst (dict_set k v d) = (if k \<in> set (map fst d) then map fst d else map fst d @ [k])"
  by (induction d) force+

lemma distinct_dict_set: "distinct (map fst d) \<Longrightarrow> distinct (map fst (dict_set k v d))"
  by (simp add: keys_dict_set)

section \<open>Repeated sequences\<close>

text \<open>
  Claim C4. \<^verbatim>\<open>find_repeat_sequences(text, min_length)\<close> raises the error exactly when
  \<open>min_length < 2\<close> or \<open>min_length \<ge> len(text) // 2\<close>, and returns a map when
  \<open>2 \<le> min_length < len(text) // 2\<close>.
\<close>

theorem find_repeat_sequences_raises_iff:
  "(find_repeat_sequences text m = Inl ValueError
      \<longleftrightarrow> m < 2 \<or> m \<ge> int (length text div 2))
   \<and> (2 \<le> m \<and> m < int (length text div 2)
      \<longrightarrow> (\<exists>d. find_repeat_sequences text m = Inr d))"
  by (simp add: find_repeat_sequences_def)

theorem find_repeat_sequences_raises_iff_witness:
  "find_repeat_sequences ''abcabcabc'' 4 = Inl ValueError
   \<and> find_repeat_sequences ''abcabcabc'' 1 = Inl ValueError
   \<and> (\<exists>d. find_repeat_sequences ''abcabcabc'' 3 = Inr d)"
  using find_repeat_sequences_raises_iff [of "''abcabcabc''" 4]
    find_repeat_sequences_raises_iff [of "''abcabcabc''" 1]
    find_repeat_sequences_raises_iff [of "''abcabcabc''" 3]
  by simp

lemma positions_of_record:
  "positions_of (record_sequence s i d) k = positions_of d k @ (if s = k then [i] else [])"
  by (simp add: positions_of_def record_sequence_def dict_get_dict_set split: option.splits)

lemma distinct_record: "distinct (map fst d) \<Longrightarrow> distinct (map fst (record_sequence s i d))"
  by (simp add: record_sequence_def distinct_dict_set split: option.splits)

lemma nonempty_dict_set:
  "list_all (\<lambda>e. snd e \<noteq> []) d \<Longrightarrow> v \<noteq> [] \<Longrightarrow> list_all (\<lambda>e. snd e \<noteq> []) (dict_set k v d)"
  by (induction d) auto

lemma filled_record: "filled d \<Longrightarrow> filled (record_sequence s i d)"
  by (simp add: filled_def distinct_record)
     (simp add: record_sequence_def nonempty_dict_set split: option.splits)

lemma filled_entry:
  assumes "filled d"
  shows "(k, ps) \<in> set d \<longleftrightarrow> ps \<noteq> [] \<and> positions_of d k = ps"
proof -
  from assms have dist: "distinct (map fst d)" and ne: "\<forall>e\<in>set d. snd e \<noteq> []"
    by (simp_all add: filled_def list_all_iff)
  show ?thesis
  proof
    assume "(k, ps) \<in> set d"
    with dist ne show "ps \<noteq> [] \<and> positions_of d k = ps"
      by (auto simp: positions_of_def dict_get_def)
  next
    assume "ps \<noteq> [] \<and> positions_of d k = ps"
    then show "(k, ps) \<in> set d"
      by (auto simp: positions_of_def dict_get_def split: option.splits dest: map_of_SomeD)
  qed
qed

lemma scan_list_positions:
  "positions_of (foldl (\<lambda>seqs i. record_sequence (f i) i seqs) d js) k
     = positions_of d k @ filter (\<lambda>i. f i = k) js"
  by (induction js arbitrary: d) (auto simp: positions_of_record)

lemma scan_list_filled:
  "filled d \<Longrightarrow> filled (foldl (\<lambda>seqs i. record_sequence (f i) i seqs) d js)"
  by (induction js arbitrary: d) (auto simp: filled_record)

lemma scan_length_positions:
  "positions_of (scan_length text len d) k =
     positions_of d k @ (if length k = len then scanned_offsets text k else [])"
proof -
  have "filter (\<lambda>i. take len (drop i text) = k) [0..<length text - len] = []" if "length k \<noteq> len"
  proof -
    have "take len (drop i text) \<noteq> k" if "i < length text - len" for i
    proof
      assume "take len (drop i text) = k"
      then have "length (take len (drop i text)) = length k" by simp
      then have "length k = min len (length text - i)" by simp
      with \<open>i < length text - len\<close> \<open>length k \<noteq> len\<close> show False by simp
    qed
    then show ?thesis by (simp add: filter_empty_conv)
  qed
  then show ?thesis
    unfolding scan_length_def scan_list_positions by (auto simp: scanned_offsets_def)
qed

lemma scan_length_filled: "filled d \<Longrightarrow> filled (scan_length text len d)"
  unfolding scan_length_def by (rule scan_list_filled)

lemma scan_all_positions:
  "distinct lens \<Longrightarrow> positions_of d k = [] \<or> length k \<notin> set lens \<Longrightarrow>
   positions_of (scan_all text lens d) k =
     positions_of d k @ (if length k \<in> set lens then scanned_offsets text k else [])"
proof (induction lens arbitrary: d)
  case Nil
  then show ?case by (simp add: scan_all_def)
next
  case (Cons a lens)
  let ?d = "scan_length text a d"
  have step: "scan_all text (a # lens) d = scan_all text lens ?d"
    by (simp add: scan_all_def)
  from Cons.prems have dist: "distinct lens" and a: "a \<notin> set lens" by simp_all
  show ?case
  proof (cases "length k = a")
    case True
    with a have "length k \<notin> set lens" by simp
    then have "positions_of (scan_all text lens ?d) k = positions_of ?d k"
      using Cons.IH [OF dist, of ?d] by simp
    moreover from Cons.prems(2) True have "positions_of d k = []" by simp
    ultimately show ?thesis
      unfolding step using True by (simp add: scan_length_positions)
  next
    case False
    then have same: "positions_of ?d k = positions_of d k"
      by (simp add: scan_length_positions)
    from Cons.prems(2) False have "positions_of ?d k = [] \<or> length k \<notin> set lens"
      unfolding same by auto
    from Cons.IH [OF dist this] show ?thesis
      unfolding step same using False by simp
  qed
qed

lemma scan_all_filled: "filled d \<Longrightarrow> filled (scan_all text lens d)"
  unfolding scan_all_def by (induction lens arbitrary: d) (auto simp: scan_length_filled)

lemma positions_of_empty: "positions_of [] k = []"
  by (simp add: positions_of_def dict_get_def)

lemma filled_empty: "filled []"
  by (simp add: filled_def)

lemma find_repeat_sequences_entries:
  assumes "find_repeat_sequences text m = Inr d"
  shows "(k, ps) \<in> set d \<longleftrightarrow>
           m \<le> int (length k) \<and> length k \<le> length text div 2
           \<and> ps = scanned_offsets text k \<and> 1 < length ps"
    and "distinct (map fst d)"
proof -
  let ?lens = "[nat m..<length text div 2 + 1]"
  let ?all = "scan_all text ?lens []"
  from assms have m: "2 \<le> m" "m < int (length text div 2)"
    and d: "d = filter (\<lambda>(sequence, positions). length positions > 1) ?all"
    by (auto simp: find_repeat_sequences_def split: if_splits)
  have f: "filled ?all" by (rule scan_all_filled [OF filled_empty])
  have pos: "positions_of ?all k = (if length k \<in> set ?lens then scanned_offsets text k else [])"
    using scan_all_positions [of "?lens" "[]" k "text"] by (simp add: positions_of_empty)
  have rng: "length k \<in> set ?lens \<longleftrightarrow> m \<le> int (length k) \<and> length k \<le> length text div 2"
    using m by auto
  have "(k, ps) \<in> set d \<longleftrightarrow> (k, ps) \<in> set ?all \<and> 1 < length ps"
    unfolding d by auto
  also have "\<dots> \<longleftrightarrow> (ps \<noteq> [] \<and> positions_of ?all k = ps) \<and> 1 < length ps"
    unfolding filled_entry [OF f] ..
  also have "\<dots> \<longleftrightarrow> m \<le> int (length k) \<and> length k \<le> length text div 2
           \<and> ps = scanned_offsets text k \<and> 1 < length ps"
    unfolding pos rng by auto
  finally show "(k, ps) \<in> set d \<longleftrightarrow>
           m \<le> int (length k) \<and> length k \<le> length text div 2
           \<and> ps = scanned_offsets text k \<and> 1 < length ps" .
  from f have "distinct (map fst ?all)" by (simp add: filled_def)
  then show "distinct (map fst d)" unfolding d by (rule distinct_map_filter)
qed

lemma scanned_offsets_sorted: "sorted_wrt (<) (scanned_offsets text k)"
  unfolding scanned_offsets_def by (rule sorted_wrt_filter) (simp add: sorted_wrt_upt)

lemma scanned_offsets_bound: "i \<in> set (scanned_offsets text k) \<Longrightarrow> i + length k < length text"
  by (auto simp: scanned_offsets_def)

lemma scanned_offsets_occurs:
  "i \<in> set (scanned_offsets text k) \<longleftrightarrow>
     i + length k < length text \<and> take (length k) (drop i text) = k"
  by (auto simp: scanned_offsets_def)

text \<open>
  What the map lists for a key: the offsets \<open>i < len(text) - len(key)\<close> at which the
  key stands in the text.
\<close>

lemma find_repeat_sequences_listed_offsets:
  assumes "find_repeat_sequences text m = Inr d" and "(k, ps) \<in> set d"
  shows "i \<in> set ps \<longleftrightarrow> i + length k < length text \<and> take (length k) (drop i text) = k"
proof -
  from assms have "ps = scanned_offsets text k"
    by (simp add: find_repeat_sequences_entries(1))
  then show ?thesis by (simp add: scanned_offsets_occurs)
qed

text \<open>
  Claim C5. When \<open>2 \<le> min_length < len(text) // 2\<close>, the map that
  \<^verbatim>\<open>find_repeat_sequences\<close> returns has distinct keys, and for every key with its
  list of offsets: the length of the key lies between \<open>min_length\<close> and
  \<open>len(text) // 2\<close>, there are at least two offsets, the offsets increase strictly,
  and every offset \<open>i\<close> satisfies \<open>0 \<le> i < len(text) - len(key)\<close>.
\<close>

theorem find_repeat_sequences_invariant:
  assumes "2 \<le> m" and "m < int (length text div 2)"
  shows "\<exists>d. find_repeat_sequences text m = Inr d \<and> distinct (map fst d)
           \<and> list_all (\<lambda>(k, ps). m \<le> int (length k) \<and> length k \<le> length text div 2
                 \<and> 2 \<le> length ps \<and> sorted_wrt (<) ps
                 \<and> list_all (\<lambda>i. 0 \<le> i \<and> i + length k < length text) ps) d"
proof -
  from assms obtain d where d: "find_repeat_sequences text m = Inr d"
    by (auto simp: find_repeat_sequences_def)
  have "m \<le> int (length k) \<and> length k \<le> length text div 2
          \<and> 2 \<le> length ps \<and> sorted_wrt (<) ps
          \<and> list_all (\<lambda>i. 0 \<le> i \<and> i + length k < length text) ps"
    if "(k, ps) \<in> set d" for k ps
    using that unfolding find_repeat_sequences_entries(1) [OF d]
    by (auto simp: scanned_offsets_sorted list_all_iff scanned_offsets_bound)
  then have "list_all (\<lambda>(k, ps). m \<le> int (length k) \<and> length k \<le> length text div 2
                 \<and> 2 \<le> length ps \<and> sorted_wrt (<) ps
                 \<and> list_all (\<lambda>i. 0 \<le> i \<and> i + length k < length text) ps) d"
    unfolding list_all_iff [of _ d] by auto
  with d find_repeat_sequences_entries(2) [OF d] show ?thesis by simp
qed

theorem find_repeat_sequences_invariant_witness:
  "(2::int) \<le> 3 \<and> 3 < int (length ''abcabcabc'' div 2)
   \<and> (\<exists>d. find_repeat_sequences ''abcabcabc'' 3 = Inr d \<and> distinct (map fst d)
           \<and> list_all (\<lambda>(k, ps). 3 \<le> int (length k) \<and> length k \<le> length ''abcabcabc'' div 2
                 \<and> 2 \<le> length ps \<and> sorted_wrt (<) ps
                 \<and> list_all (\<lambda>i. 0 \<le> i \<and> i + length k < length ''abcabcabc'') ps) d)"
proof -
  have h1: "(2::int) \<le> 3" by simp
  have h2: "3 < int (length ''abcabcabc'' div 2)" by simp
  show ?thesis
    by (rule conjI [OF h1 conjI [OF h2 find_repeat_sequences_invariant [OF h1 h2]]])
qed

text \<open>
  Claim C1, at the text \<^verbatim>\<open>abcabcabc\<close> with the default minimum length 3: the
  map lists the offsets 0 and 3 for \<^verbatim>\<open>abc\<close>, and \<^verbatim>\<open>abc\<close> also stands at offset 6,
  the last offset of the text, which \<^verbatim>\<open>range(len(text) - length)\<close> leaves out.
\<close>

theorem find_repeat_sequences_misses_last_offset:
  "find_repeat_sequences ''abcabcabc'' 3 =
     Inr [(''abc'', [0, 3]), (''bca'', [1, 4]), (''cab'', [2, 5]),
          (''abca'', [0, 3]), (''bcab'', [1, 4])]
   \<and> take (length ''abc'') (drop 6 ''abcabcabc'') = ''abc''"
  by code_simp

section \<open>Factors\<close>

lemma ex_int_from_split:
  "(\<exists>j::int. i \<le> j \<and> P j) \<longleftrightarrow> P i \<or> (\<exists>j. i + 1 \<le> j \<and> P j)"
proof
  assume "\<exists>j. i \<le> j \<and> P j"
  then obtain j where j: "i \<le> j" "P j" by blast
  show "P i \<or> (\<exists>j. i + 1 \<le> j \<and> P j)"
  proof (cases "j = i")
    case True with j show ?thesis by simp
  next
    case False with j have "i + 1 \<le> j" by simp
    with j show ?thesis by blast
  qed
next
  assume "P i \<or> (\<exists>j. i + 1 \<le> j \<and> P j)"
  then show "\<exists>j. i \<le> j \<and> P j"
  proof
    assume "P i" then show ?thesis by (intro exI [of _ i]) simp
  next
    assume "\<exists>j. i + 1 \<le> j \<and> P j"
    then obtain j where "i + 1 \<le> j" "P j" by blast
    then show ?thesis by (intro exI [of _ j]) simp
  qed
qed

lemma pair_factors_step:
  "i * i \<le> n \<Longrightarrow> pair_factors n i =
     (if n mod i = 0 then {n div i, i} else {}) \<union> pair_factors n (i + 1)"
  unfolding pair_factors_def
  by (subst ex_int_from_split) auto

lemma pair_factors_empty:
  assumes "0 \<le> i" "\<not> i * i \<le> n"
  shows "pair_factors n i = {}"
proof -
  have "\<not> j * j \<le> n" if "i \<le> j" for j
  proof -
    from that assms(1) have "i * i \<le> j * j" by (intro mult_mono) auto
    with assms(2) show ?thesis by simp
  qed
  then show ?thesis unfolding pair_factors_def by blast
qed

lemma find_factors_loop_eq:
  "0 \<le> i \<Longrightarrow> find_factors_loop n i F = F \<union> pair_factors n i"
proof (induction n i F rule: find_factors_loop.induct)
  case (1 n i F)
  show ?case
  proof (cases "i * i \<le> n")
    case True
    let ?F' = "if n mod i = 0 then insert (n div i) (insert i F) else F"
    have ih: "find_factors_loop n (i + 1) ?F' = ?F' \<union> pair_factors n (i + 1)"
      using "1.IH" [OF True] "1.prems" by simp
    have "find_factors_loop n i F = find_factors_loop n (i + 1) ?F'"
      using True by (subst find_factors_loop.simps) simp
    also have "\<dots> = F \<union> pair_factors n i"
      unfolding ih pair_factors_step [OF True] by auto
    finally show ?thesis .
  next
    case False
    then show ?thesis
      using pair_factors_empty [OF "1.prems" False] by (subst find_factors_loop.simps) simp
  qed
qed


lemma divisor_pairs:
  assumes n: "1 < (n::int)"
  shows "insert n (pair_factors n 2) = {d. 1 < d \<and> d dvd n}" (is "?L = ?R")
proof (rule set_eqI, rule iffI)
  fix d assume "d \<in> ?L"
  then have "d = n \<or> d \<in> pair_factors n 2" by simp
  then show "d \<in> ?R"
  proof
    assume "d = n" with n show ?thesis by simp
  next
    assume "d \<in> pair_factors n 2"
    then have "\<exists>j. 2 \<le> j \<and> j * j \<le> n \<and> n mod j = 0 \<and> (d = j \<or> d = n div j)"
      by (simp add: pair_factors_def)
    then obtain j where 2: "2 \<le> j" "j * j \<le> n" "n mod j = 0" "d = j \<or> d = n div j"
      by (elim exE conjE)
    from 2(3) have jd: "j dvd n" by (simp add: dvd_eq_mod_eq_0)
    then obtain k where k: "n = j * k" by (rule dvdE)
    have kj: "j \<le> k"
    proof (rule ccontr)
      assume "\<not> j \<le> k"
      then have "k < j" by simp
      with 2(1) have "j * k < j * j" by (intro mult_strict_left_mono) auto
      with 2(2) k show False by simp
    qed
    have nk: "n div j = k" using k 2(1) by simp
    have kd: "k dvd n" using k by simp
    have "1 < j" "1 < k" using 2(1) kj by simp_all
    from 2(4) show ?thesis
    proof
      assume "d = j" with \<open>1 < j\<close> jd show ?thesis by simp
    next
      assume "d = n div j" with nk \<open>1 < k\<close> kd show ?thesis by simp
    qed
  qed
next
  fix d assume "d \<in> ?R"
  then have d: "1 < d" "d dvd n" by auto
  from d(2) obtain k where k: "n = d * k" by (rule dvdE)
  have "0 < d * k" using n k by simp
  then have kpos: "0 < k" using d(1) by (simp add: zero_less_mult_iff)
  show "d \<in> ?L"
  proof (cases "d = n")
    case True then show ?thesis by simp
  next
    case False
    with k d have k1: "k \<noteq> 1" by auto
    with kpos have k2: "2 \<le> k" by simp
    show ?thesis
    proof (cases "d * d \<le> n")
      case True
      moreover have "2 \<le> d" "n mod d = 0" using d by (simp_all add: dvd_eq_mod_eq_0)
      ultimately have "\<exists>j. 2 \<le> j \<and> j * j \<le> n \<and> n mod j = 0 \<and> (d = j \<or> d = n div j)"
        by (intro exI [of _ d]) simp
      then have "d \<in> pair_factors n 2"
        unfolding pair_factors_def by simp
      then show ?thesis by simp
    next
      case False
      then have "d * k < d * d" using k by simp
      then have "k < d" using d(1) by (simp add: mult_less_cancel_left)
      then have "k * k \<le> d * k" using kpos by (intro mult_right_mono) auto
      then have "k * k \<le> n" using k by simp
      moreover have "n mod k = 0" using k by simp
      moreover have "d = n div k" using k kpos by simp
      ultimately have "\<exists>j. 2 \<le> j \<and> j * j \<le> n \<and> n mod j = 0 \<and> (d = j \<or> d = n div j)"
        using k2 by (intro exI [of _ k]) simp
      then have "d \<in> pair_factors n 2"
        unfolding pair_factors_def by simp
      then show ?thesis by simp
    qed
  qed
qed

lemma find_factors_eq: "1 < n \<Longrightarrow> find_factors n = Inr {d. 1 < d \<and> d dvd n}"
  using divisor_pairs [of n] by (simp add: find_factors_def find_factors_loop_eq)

text \<open>
  Claim C2. For \<open>n > 1\<close>, \<^verbatim>\<open>find_factors(n)\<close> returns the set of all divisors of \<open>n\<close>
  that are greater than 1, \<open>n\<close> among them; for a prime \<open>p\<close> it returns \<open>{p}\<close>, and
  for 12 it returns \<open>{2, 3, 4, 6, 12}\<close>.
\<close>

theorem find_factors_divisors:
  "(1 < n \<longrightarrow> find_factors n = Inr {d. 1 < d \<and> d dvd n})
   \<and> (1 < p \<and> (\<forall>d. 1 < d \<and> d dvd p \<longrightarrow> d = p) \<longrightarrow> find_factors p = Inr {p})
   \<and> find_factors 12 = Inr {2, 3, 4, 6, 12}"
proof (intro conjI impI)
  assume "1 < n" then show "find_factors n = Inr {d. 1 < d \<and> d dvd n}" by (rule find_factors_eq)
next
  assume p: "1 < p \<and> (\<forall>d. 1 < d \<and> d dvd p \<longrightarrow> d = p)"
  then have "{d. 1 < d \<and> d dvd p} = {p}" by auto
  with p show "find_factors p = Inr {p}" by (simp add: find_factors_eq)
next
  show "find_factors 12 = Inr {2, 3, 4, 6, 12}"
    by (simp add: find_factors_def find_factors_loop.simps insert_commute)
qed

lemma seven_prime: "\<forall>d::int. 1 < d \<and> d dvd 7 \<longrightarrow> d = 7"
proof (intro allI impI)
  fix d :: int assume d: "1 < d \<and> d dvd 7"
  then have "d \<le> 7" by (intro zdvd_imp_le) auto
  with d have "d \<in> {2,3,4,5,6,7}" by auto
  with d show "d = 7" by auto
qed

theorem find_factors_divisors_witness:
  "(1::int) < 12 \<and> find_factors 12 = Inr {d. 1 < d \<and> d dvd 12}
   \<and> (1::int) < 7 \<and> find_factors 7 = Inr {7}"
proof -
  have a: "find_factors 12 = Inr {d. 1 < d \<and> d dvd 12}"
    using find_factors_divisors [of 12 7, THEN conjunct1] by simp
  have b: "find_factors 7 = Inr {7}"
    using find_factors_divisors [of 12 7, THEN conjunct2, THEN conjunct1] seven_prime by simp
  show ?thesis by (intro conjI a b) simp_all
qed

section \<open>Key lengths\<close>

lemma dict_get_tabulate:
  "dict_get (map (\<lambda>k. (k, g k)) ks) x = (if x \<in> set ks then Some (g x) else None)"
  by (induction ks) (auto simp: dict_get_def)

lemma dict_set_tabulate:
  "distinct ks \<Longrightarrow> dict_set x v (map (\<lambda>k. (k, g k)) ks) =
     (if x \<in> set ks then map (\<lambda>k. (k, if k = x then v else g k)) ks
      else map (\<lambda>k. (k, g k)) ks @ [(x, v)])"
  by (induction ks) auto

lemma first_seen_snoc:
  "first_seen (xs @ [x]) = (if x \<in> set xs then first_seen xs else first_seen xs @ [x])"
  by (simp add: first_seen_def)

lemma set_first_seen: "set (first_seen xs) = set xs"
  by (simp add: first_seen_def)

lemma distinct_first_seen: "distinct (first_seen xs)"
  by (simp add: first_seen_def)

lemma count_factors_snoc:
  "count_factors (fs @ [x]) =
     dict_set x ((case dict_get (count_factors fs) x of None \<Rightarrow> 0 | Some c \<Rightarrow> c) + 1)
       (count_factors fs)"
  by (simp add: count_factors_def)

lemma count_factors_eq:
  "count_factors fs = map (\<lambda>f. (f, count_list fs f)) (first_seen fs)"
proof (induction fs rule: rev_induct)
  case Nil
  show ?case by (simp add: count_factors_def first_seen_def)
next
  case (snoc x fs)
  show ?case
  proof (cases "x \<in> set fs")
    case True
    then show ?thesis
      unfolding count_factors_snoc snoc.IH
      by (simp add: dict_get_tabulate dict_set_tabulate set_first_seen distinct_first_seen
            first_seen_snoc)
  next
    case False
    then show ?thesis
      unfolding count_factors_snoc snoc.IH
      by (auto simp: dict_get_tabulate dict_set_tabulate set_first_seen distinct_first_seen
            first_seen_snoc)
  qed
qed

lemma count_list_distinct: "distinct xs \<Longrightarrow> count_list xs x = (if x \<in> set xs then 1 else 0)"
  by (induction xs) auto

lemma count_list_concat:
  "list_all (\<lambda>s. distinct (g s)) ss \<Longrightarrow>
   count_list (concat (map g ss)) x = length (filter (\<lambda>s. x \<in> set (g s)) ss)"
  by (induction ss) (auto simp: count_list_distinct)


lemma collect_factors_ok:
  "list_all (\<lambda>s. 1 < s) spaces \<Longrightarrow>
   collect_factors iter spaces acc =
     Inr (acc @ concat (map (\<lambda>s. iter {d. 1 < d \<and> d dvd s}) spaces))"
  by (induction spaces arbitrary: acc) (auto simp: find_factors_eq)


lemma finite_divisors: "1 < (s::int) \<Longrightarrow> finite {d. 1 < d \<and> d dvd s}"
proof -
  assume "1 < s"
  then have "d \<le> s" if "d dvd s" for d
    using that by (intro zdvd_imp_le) simp_all
  then have "{d. 1 < d \<and> d dvd s} \<subseteq> {1..s}"
    by auto
  then show ?thesis by (rule finite_subset) simp
qed

lemma distinct_fst_sort_key:
  "distinct (map fst (sort_key f xs)) = distinct (map fst xs)"
proof (induction xs)
  case Nil show ?case by simp
next
  case (Cons x xs)
  have ins: "distinct (map fst (insort_key f x ys)) = (fst x \<notin> fst ` set ys \<and> distinct (map fst ys))" for ys
    by (induction ys) (auto simp: set_insort_key)
  from Cons show ?case by (simp add: ins)
qed

lemma sorted_by_count_desc: "sorted_wrt (\<ge>) (map snd (sorted_by_count items))"
proof -
  have "sorted (map (\<lambda>x. - int (snd x)) (sorted_by_count items))"
    unfolding sorted_by_count_def by (rule sorted_sort_key)
  then show ?thesis by (simp add: sorted_wrt_map)
qed

lemma sorted_by_count_stable:
  "filter (\<lambda>p. snd p = c) (sorted_by_count items) = filter (\<lambda>p. snd p = c) items"
  using sort_key_stable [of "\<lambda>x. - int (snd x)" "- int c" items]
  by (simp add: sorted_by_count_def)

lemma tabulate_filter_fst:
  "map fst (filter (\<lambda>p. snd p = c) (map (\<lambda>k. (k, g k)) ks)) = filter (\<lambda>k. g k = c) ks"
  by (induction ks) auto

lemma tabulate_fst: "map fst (map (\<lambda>k. (k, g k)) ks) = ks"
  by (induction ks) auto

text \<open>
  Claim C3. Let every spacing be greater than 1, and let \<open>iter\<close> list the elements of
  a finite set once each. Then \<^verbatim>\<open>find_key_lengths(spaces, None)\<close> returns a list of
  pairs with exactly one pair for every \<open>f \<ge> 2\<close> that divides a spacing; the count of
  \<open>f\<close> is the number of spacings that \<open>f\<close> divides; the counts do not increase along
  the list; and the factors of equal count stand in the order in which they are
  first met in the list \<^verbatim>\<open>factors\<close> that is tallied.
\<close>

theorem find_key_lengths_ranking:
  assumes iter: "\<forall>S. finite S \<longrightarrow> distinct (iter S) \<and> set (iter S) = S"
    and sp: "\<forall>s\<in>set spaces. 1 < s"
  shows "\<exists>factors r.
           collect_factors iter spaces [] = Inr factors
         \<and> find_key_lengths iter spaces None = Inr r
         \<and> distinct (map fst r)
         \<and> set (map fst r) = {f. 2 \<le> f \<and> (\<exists>s\<in>set spaces. f dvd s)}
         \<and> (\<forall>(f, c)\<in>set r. c = length (filter (\<lambda>s. f dvd s) spaces))
         \<and> sorted_wrt (\<ge>) (map snd r)
         \<and> (\<forall>c. map fst (filter (\<lambda>p. snd p = c) r)
                 = filter (\<lambda>f. length (filter (\<lambda>s. f dvd s) spaces) = c) (first_seen factors))"
proof -
  define D where "D s = {d::int. 1 < d \<and> d dvd s}" for s
  define factors where "factors = concat (map (\<lambda>s. iter (D s)) spaces)"
  define votes where "votes f = length (filter (\<lambda>s. f dvd s) spaces)" for f :: int
  define items where "items = map (\<lambda>f. (f, count_list factors f)) (first_seen factors)"
  define r where "r = sorted_by_count items"
  from sp have all: "list_all (\<lambda>s. 1 < s) spaces" by (simp add: list_all_iff)
  have it: "distinct (iter (D s))" "set (iter (D s)) = D s" if "s \<in> set spaces" for s
    using iter sp that finite_divisors [of s] by (simp_all add: D_def)
  have collect: "collect_factors iter spaces [] = Inr factors"
    using collect_factors_ok [OF all, of iter "[]"] by (simp add: factors_def D_def)
  have items: "count_factors factors = items"
    by (simp add: items_def count_factors_eq)
  have res: "find_key_lengths iter spaces None = Inr r"
    by (simp add: find_key_lengths_def collect items r_def)
  have set_factors: "set factors = {f. 2 \<le> f \<and> (\<exists>s\<in>set spaces. f dvd s)}"
  proof -
    have "set factors = (\<Union>s\<in>set spaces. D s)"
      by (simp add: factors_def it)
    also have "\<dots> = {f. 2 \<le> f \<and> (\<exists>s\<in>set spaces. f dvd s)}"
      by (auto simp: D_def)
    finally show ?thesis .
  qed
  have count: "count_list factors f = votes f" if "1 < f" for f
  proof -
    have "count_list factors f = length (filter (\<lambda>s. f \<in> set (iter (D s))) spaces)"
      unfolding factors_def by (rule count_list_concat) (simp add: list_all_iff it)
    also have "filter (\<lambda>s. f \<in> set (iter (D s))) spaces = filter (\<lambda>s. f dvd s) spaces"
    proof (rule filter_cong)
      fix s assume "s \<in> set spaces"
      then have "set (iter (D s)) = D s" by (rule it(2))
      then show "(f \<in> set (iter (D s))) = (f dvd s)" by (simp add: D_def that)
    qed simp
    finally show ?thesis by (simp add: votes_def)
  qed
  have keys: "map fst items = first_seen factors"
    unfolding items_def by (rule tabulate_fst)
  have d1: "distinct (map fst r)"
    by (simp add: r_def sorted_by_count_def distinct_fst_sort_key keys distinct_first_seen)
  have d2: "set (map fst r) = {f. 2 \<le> f \<and> (\<exists>s\<in>set spaces. f dvd s)}"
  proof -
    have "set (map fst r) = set (map fst items)"
      by (simp add: r_def sorted_by_count_def)
    then show ?thesis by (simp add: keys set_first_seen set_factors)
  qed
  have d3: "\<forall>(f, c)\<in>set r. c = votes f"
  proof (clarify)
    fix f c assume "(f, c) \<in> set r"
    then have "(f, c) \<in> set items" by (simp add: r_def sorted_by_count_def)
    then have c: "c = count_list factors f" and "f \<in> set factors"
      by (auto simp: items_def set_first_seen)
    then have "1 < f" by (simp add: set_factors)
    with c show "c = votes f" by (simp add: count)
  qed
  have d4: "sorted_wrt (\<ge>) (map snd r)"
    unfolding r_def by (rule sorted_by_count_desc)
  have d5: "map fst (filter (\<lambda>p. snd p = c) r) = filter (\<lambda>f. votes f = c) (first_seen factors)" for c
  proof -
    have "map fst (filter (\<lambda>p. snd p = c) r) = filter (\<lambda>f. count_list factors f = c) (first_seen factors)"
      unfolding r_def sorted_by_count_stable items_def by (rule tabulate_filter_fst)
    also have "\<dots> = filter (\<lambda>f. votes f = c) (first_seen factors)"
      by (rule filter_cong) (simp_all add: set_first_seen set_factors count)
    finally show ?thesis .
  qed
  show ?thesis
    using collect res d1 d2 d3 d4 d5 unfolding votes_def by blast
qed

theorem find_key_lengths_ranking_witness:
  "list_all (\<lambda>s. 1 < s) [6, 4 :: int]
   \<and> (\<exists>factors r.
           collect_factors sorted_list_of_set [6, 4] [] = Inr factors
         \<and> find_key_lengths sorted_list_of_set [6, 4] None = Inr r
         \<and> distinct (map fst r)
         \<and> set (map fst r) = {f. 2 \<le> f \<and> (\<exists>s\<in>set [6, 4]. f dvd s)}
         \<and> (\<forall>(f, c)\<in>set r. c = length (filter (\<lambda>s. f dvd s) [6, 4]))
         \<and> sorted_wrt (\<ge>) (map snd r)
         \<and> (\<forall>c. map fst (filter (\<lambda>p. snd p = c) r)
                 = filter (\<lambda>f. length (filter (\<lambda>s. f dvd s) [6, 4]) = c) (first_seen factors)))"
proof -
  have h1: "\<forall>S::int set. finite S \<longrightarrow> distinct (sorted_list_of_set S) \<and> set (sorted_list_of_set S) = S"
    by simp
  have h2: "\<forall>s\<in>set [6, 4 :: int]. 1 < s" by simp
  have h3: "list_all (\<lambda>s. 1 < s) [6, 4 :: int]" by simp
  show ?thesis
    by (rule conjI [OF h3 find_key_lengths_ranking [OF h1 h2]])
qed







section \<open>Language detection\<close>

lemma typical_similarity_eq:
  "typical_similarity tf n items s = detect_similarity tf n items s"
  by (induction items arbitrary: s) (auto split: option.splits)

lemma load_tables_single:
  "load_tables fs [language] [] =
     (case open_and_load fs language of Inl e \<Rightarrow> Inl e | Inr loaded \<Rightarrow> Inr [(language, loaded)])"
  by (simp split: sum.splits)

lemma score_languages_single:
  "score_languages tf n [(language, loaded)] [] =
     (case loaded of
        NonObject \<Rightarrow> Inl AttributeError
      | Object items \<Rightarrow>
          (case detect_similarity tf n items 0 of
             Inl e \<Rightarrow> Inl e | Inr similarity \<Rightarrow> Inr [(language, 1 - similarity)]))"
  by (simp split: sum.splits json.splits)

lemma sample_available: "get_available_languages sample_fs = Inr [''english'', ''broken'']"
  by (simp add: get_available_languages_def listdir_def sample_fs_def endswith_def)

lemma sample_english:
  "open_and_load sample_fs ''english'' = Inr (Object [(''e'', Some (1 / 2)), (''t'', Some (1 / 4))])"
  by (simp add: open_and_load_def sample_fs_def sample_files_def)

lemma sample_broken: "open_and_load sample_fs ''broken'' = Inl JSONDecodeError"
  by (simp add: open_and_load_def sample_fs_def sample_files_def)

lemma sample_klingon: "open_and_load sample_fs ''klingon'' = Inl FileNotFoundError"
  by (simp add: open_and_load_def sample_fs_def sample_files_def)

lemma lower_Tee: "ascii_lower ''Tee'' = ''tee''" by code_simp
lemma lower_E: "ascii_lower ''E'' = ''e''" by code_simp

lemma lower_XYZ: "ascii_lower ''XYZ'' = ''xyz''" by code_simp

lemma ascii_lower_empty: "ascii_lower [] = []"
  by (simp add: ascii_lower_def)

lemma strip_json:
  assumes "endswith file_name ''.json''"
  shows "take (length file_name - 5) file_name @ ''.json'' = file_name"
proof -
  from assms have "drop (length file_name - 5) file_name = ''.json''"
    by (simp add: endswith_def eval_nat_numeral)
  then have "take (length file_name - 5) file_name @ ''.json''
      = take (length file_name - 5) file_name @ drop (length file_name - 5) file_name"
    by simp
  then show ?thesis by (simp only: append_take_drop_id)
qed

lemma available_listed:
  assumes "get_available_languages fs = Inr available" and "language \<in> set available"
  shows "\<exists>names. folder fs = Folder names \<and> language @ ''.json'' \<in> set names
           \<and> endswith (language @ ''.json'') ''.json''"
proof -
  from assms(1) obtain names where names: "folder fs = Folder names"
    and av: "available = map (\<lambda>file_name. take (length file_name - 5) file_name)
                 (filter (\<lambda>file_name. endswith file_name ''.json'') names)"
    by (auto simp: get_available_languages_def listdir_def split: folder_state.splits)
  from assms(2) av obtain file_name where fn: "file_name \<in> set names"
    "endswith file_name ''.json''" "language = take (length file_name - 5) file_name"
    by auto
  from fn(2,3) have "language @ ''.json'' = file_name" by (simp add: strip_json)
  with fn names show ?thesis by simp
qed

lemma open_and_load_not_found:
  "open_and_load fs language = Inl FileNotFoundError
     \<longleftrightarrow> file_at fs (''frequency_tables/'' @ language @ ''.json'') = FileMissing"
  by (simp add: open_and_load_def split: file_state.splits)

lemma load_tables_first_failure:
  "list_all (\<lambda>p. \<not> isl (open_and_load fs p)) pre \<Longrightarrow> open_and_load fs l = Inl e \<Longrightarrow>
   load_tables fs (pre @ l # post) acc = Inl e"
proof (induction pre arbitrary: acc)
  case Nil then show ?case by simp
next
  case (Cons p pre)
  from Cons.prems(1) obtain loaded where "open_and_load fs p = Inr loaded"
    by (cases "open_and_load fs p") auto
  with Cons show ?case by simp
qed

lemma load_tables_fails:
  "\<exists>l\<in>set ls. isl (open_and_load fs l) \<Longrightarrow> \<exists>e. load_tables fs ls acc = Inl e"
proof (induction ls arbitrary: acc)
  case Nil then show ?case by simp
next
  case (Cons p ls)
  show ?case
  proof (cases "open_and_load fs p")
    case (Inl e) then show ?thesis by simp
  next
    case (Inr loaded)
    with Cons.prems have "\<exists>l\<in>set ls. isl (open_and_load fs l)" by auto
    from Cons.IH [OF this] Inr show ?thesis by simp
  qed
qed

lemma load_tables_error_source:
  "load_tables fs ls acc = Inl e \<Longrightarrow> \<exists>l\<in>set ls. open_and_load fs l = Inl e"
proof (induction ls arbitrary: acc)
  case Nil then show ?case by simp
next
  case (Cons p ls)
  show ?case
  proof (cases "open_and_load fs p")
    case (Inl e') with Cons.prems show ?thesis by simp
  next
    case (Inr loaded)
    with Cons.prems have "load_tables fs ls (dict_set p loaded acc) = Inl e" by simp
    from Cons.IH [OF this] show ?thesis by auto
  qed
qed

lemma open_and_load_error_kind:
  "open_and_load fs l = Inl e \<Longrightarrow> e = FileNotFoundError \<or> e = OSError \<or> e = JSONDecodeError"
  by (auto simp: open_and_load_def split: file_state.splits)

lemma detect_similarity_error_kind:
  "detect_similarity tf n items s = Inl e \<Longrightarrow> e = TypeError \<or> e = ZeroDivisionError"
  by (induction items arbitrary: s) (auto split: option.splits if_splits)

lemma detect_similarity_no_zero_division:
  "n \<noteq> 0 \<or> (\<forall>ch. tf ch = None) \<Longrightarrow> detect_similarity tf n items s \<noteq> Inl ZeroDivisionError"
  by (induction items arbitrary: s) (auto split: option.splits)

lemma score_languages_error_kind:
  "score_languages tf n tables acc = Inl e \<Longrightarrow>
     e = AttributeError \<or> e = TypeError \<or> e = ZeroDivisionError"
proof (induction tables arbitrary: acc)
  case Nil then show ?case by simp
next
  case (Cons lt tables)
  obtain l loaded where lt: "lt = (l, loaded)" by (cases lt)
  show ?case
  proof (cases loaded)
    case NonObject
    with Cons.prems lt show ?thesis by simp
  next
    case (Object items)
    show ?thesis
    proof (cases "detect_similarity tf n items 0")
      case (Inl e')
      with Cons.prems lt Object detect_similarity_error_kind [OF Inl] show ?thesis by auto
    next
      case (Inr similarity)
      with Cons.prems lt Object
      have "score_languages tf n tables (dict_set l (1 - similarity) acc) = Inl e" by simp
      from Cons.IH [OF this] show ?thesis .
    qed
  qed
qed

lemma score_languages_no_zero_division:
  assumes "n \<noteq> 0 \<or> (\<forall>ch. tf ch = None)"
  shows "score_languages tf n tables acc \<noteq> Inl ZeroDivisionError"
proof (induction tables arbitrary: acc)
  case Nil show ?case by simp
next
  case (Cons lt tables)
  obtain l loaded where lt: "lt = (l, loaded)" by (cases lt)
  show ?case
  proof (cases loaded)
    case NonObject
    with lt show ?thesis by simp
  next
    case (Object items)
    show ?thesis
    proof (cases "detect_similarity tf n items 0")
      case (Inl e')
      with detect_similarity_no_zero_division [OF assms, of items 0]
      have "e' \<noteq> ZeroDivisionError" by auto
      with lt Object Inl show ?thesis by simp
    next
      case (Inr similarity)
      with lt Object Cons.IH show ?thesis by simp
    qed
  qed
qed

lemma Counter_characters_empty: "Counter (characters []) = (\<lambda>k. None)"
  by (simp add: Counter_def characters_def)

lemma counter_guard:
  assumes "lower [] = []"
  shows "length s \<noteq> 0 \<or> (\<forall>ch. Counter (characters (lower s)) ch = None)"
  using assms by (cases "s = []") (simp_all add: Counter_characters_empty)

lemma dict_set_entries:
  "(k', v') \<in> set (dict_set k v d) \<Longrightarrow> (k', v') = (k, v) \<or> (k', v') \<in> set d"
  by (induction d) (auto split: if_splits)

lemma load_tables_entries:
  "load_tables fs languages acc = Inr tables \<Longrightarrow> (l, t) \<in> set tables \<Longrightarrow>
     (l, t) \<in> set acc \<or> open_and_load fs l = Inr t"
proof (induction languages arbitrary: acc)
  case Nil then show ?case by simp
next
  case (Cons language languages)
  from Cons.prems(1) obtain loaded where loaded: "open_and_load fs language = Inr loaded"
    and rest: "load_tables fs languages (dict_set language loaded acc) = Inr tables"
    by (auto split: sum.splits)
  from Cons.IH [OF rest Cons.prems(2)]
  have "(l, t) \<in> set (dict_set language loaded acc) \<or> open_and_load fs l = Inr t" .
  then show ?case
  proof
    assume "(l, t) \<in> set (dict_set language loaded acc)"
    from dict_set_entries [OF this] loaded show ?thesis by auto
  qed simp
qed

lemma score_languages_entries:
  "score_languages tf n tables acc = Inr similarities \<Longrightarrow> (l, s) \<in> set similarities \<Longrightarrow>
     (l, s) \<in> set acc
     \<or> (\<exists>items similarity. (l, Object items) \<in> set tables
           \<and> detect_similarity tf n items 0 = Inr similarity \<and> s = 1 - similarity)"
proof (induction tables arbitrary: acc)
  case Nil then show ?case by simp
next
  case (Cons lt tables)
  obtain language loaded where lt: "lt = (language, loaded)" by (cases lt)
  from Cons.prems(1) lt obtain items similarity
    where obj: "loaded = Object items"
      and sim: "detect_similarity tf n items 0 = Inr similarity"
      and rest: "score_languages tf n tables (dict_set language (1 - similarity) acc) = Inr similarities"
    by (auto split: sum.splits json.splits)
  from Cons.IH [OF rest Cons.prems(2)]
  have "(l, s) \<in> set (dict_set language (1 - similarity) acc)
     \<or> (\<exists>items similarity. (l, Object items) \<in> set tables
           \<and> detect_similarity tf n items 0 = Inr similarity \<and> s = 1 - similarity)" .
  then show ?case
  proof
    assume "(l, s) \<in> set (dict_set language (1 - similarity) acc)"
    from dict_set_entries [OF this] sim lt obj show ?thesis by auto
  next
    assume "\<exists>items similarity. (l, Object items) \<in> set tables
           \<and> detect_similarity tf n items 0 = Inr similarity \<and> s = 1 - similarity"
    then show ?thesis by auto
  qed
qed

lemma detect_similarity_no_common:
  "\<forall>ch\<in>fst ` set items. tf ch = None \<Longrightarrow> detect_similarity tf n items s = Inr s"
  by (induction items arbitrary: s) auto

text \<open>
  Claim C6. For a language that the folder lists, \<^verbatim>\<open>is_typical(text, language, t)\<close>
  and \<^verbatim>\<open>detect_language(text, [language])\<close> agree: when the latter raises, the former
  raises the same error; when the latter returns, its result has a score for the
  language, and \<^verbatim>\<open>is_typical\<close> returns whether that score is greater than \<open>t\<close>.
\<close>

theorem is_typical_agrees_with_detect_language:
  assumes "get_available_languages fs = Inr available" and "language \<in> set available"
  shows "case detect_language lower fs text (Some [language]) of
           Inl e \<Rightarrow> is_typical lower fs text language t = Inl e
         | Inr similarities \<Rightarrow>
             (\<exists>score. dict_get similarities language = Some score
                \<and> is_typical lower fs text language t = Inr (score > t))"
  using assms
  by (simp add: detect_language_def is_typical_def load_tables_single score_languages_single
        typical_similarity_eq dict_get_def split: sum.splits json.splits)

theorem is_typical_agrees_with_detect_language_witness:
  "get_available_languages sample_fs = Inr [''english'', ''broken'']
   \<and> ''english'' \<in> set [''english'', ''broken'']
   \<and> (case detect_language ascii_lower sample_fs ''Tee'' (Some [''english'']) of
         Inl e \<Rightarrow> is_typical ascii_lower sample_fs ''Tee'' ''english'' (1 / 5) = Inl e
       | Inr similarities \<Rightarrow>
           (\<exists>score. dict_get similarities ''english'' = Some score
              \<and> is_typical ascii_lower sample_fs ''Tee'' ''english'' (1 / 5) = Inr (score > 1 / 5)))"
proof -
  have h: "''english'' \<in> set [''english'', ''broken'']" by simp
  show ?thesis
    by (rule conjI [OF sample_available
          conjI [OF h is_typical_agrees_with_detect_language [OF sample_available h]]])
qed

text \<open>
  Claim C8. \<^verbatim>\<open>is_typical\<close> is monotonic in the threshold: when it returns true for
  \<open>t1\<close>, it returns true for every \<open>t2 < t1\<close>.
\<close>

theorem is_typical_threshold_mono:
  assumes "is_typical lower fs text language t1 = Inr True" and "t2 < t1"
  shows "is_typical lower fs text language t2 = Inr True"
  using assms by (auto simp: is_typical_def split: if_splits sum.splits json.splits)

theorem is_typical_threshold_mono_witness:
  "is_typical ascii_lower sample_fs ''Tee'' ''english'' (1 / 5) = Inr True
   \<and> (1 / 10 :: real) < 1 / 5
   \<and> is_typical ascii_lower sample_fs ''Tee'' ''english'' (1 / 10) = Inr True"
proof -
  have h1: "is_typical ascii_lower sample_fs ''Tee'' ''english'' (1 / 5) = Inr True"
    by (simp add: is_typical_def sample_available sample_english lower_Tee
          Counter_def characters_def)
  have h2: "(1 / 10 :: real) < 1 / 5" by simp
  show ?thesis
    by (rule conjI [OF h1 conjI [OF h2 is_typical_threshold_mono [OF h1 h2]]])
qed

text \<open>
  Claim C7, amended. With a list of languages given: when the first name whose
  file fails to load is a name whose file does not exist, \<^verbatim>\<open>detect_language\<close> raises
  \<^verbatim>\<open>FileNotFoundError\<close>, before any score is computed; and whenever the file of some
  listed name does not exist, the call raises and returns no result. With no list
  given: when the folder exists and every file of it that ends with \<^verbatim>\<open>.json\<close> can be
  found when opened, \<^verbatim>\<open>FileNotFoundError\<close> is not raised; when the folder is missing,
  \<^verbatim>\<open>os.listdir\<close> raises \<^verbatim>\<open>FileNotFoundError\<close>.
\<close>

theorem detect_language_not_found:
  "(list_all (\<lambda>p. \<not> isl (open_and_load fs p)) pre
      \<and> open_and_load fs l = Inl FileNotFoundError
      \<longrightarrow> detect_language lower fs text (Some (pre @ l # post)) = Inl FileNotFoundError)
   \<and> ((\<exists>l\<in>set ls. open_and_load fs l = Inl FileNotFoundError)
      \<longrightarrow> (\<exists>e. detect_language lower fs text (Some ls) = Inl e))
   \<and> (folder fs = Folder names
      \<and> list_all (\<lambda>name. endswith name ''.json''
                    \<longrightarrow> file_at fs (''frequency_tables/'' @ name) \<noteq> FileMissing) names
      \<longrightarrow> detect_language lower fs text None \<noteq> Inl FileNotFoundError)
   \<and> (folder fs = FolderMissing
      \<longrightarrow> detect_language lower fs text None = Inl FileNotFoundError)"
proof (intro conjI impI)
  assume "list_all (\<lambda>p. \<not> isl (open_and_load fs p)) pre
      \<and> open_and_load fs l = Inl FileNotFoundError"
  then have "load_tables fs (pre @ l # post) [] = Inl FileNotFoundError"
    by (intro load_tables_first_failure) simp_all
  then show "detect_language lower fs text (Some (pre @ l # post)) = Inl FileNotFoundError"
    by (simp add: detect_language_def)
next
  assume "\<exists>l\<in>set ls. open_and_load fs l = Inl FileNotFoundError"
  then obtain l' where "l' \<in> set ls" "open_and_load fs l' = Inl FileNotFoundError" by (elim bexE)
  then have "\<exists>l\<in>set ls. isl (open_and_load fs l)" by (intro bexI [of _ l']) simp_all
  from load_tables_fails [OF this, of "[]"] obtain e where "load_tables fs ls [] = Inl e"
    by (elim exE)
  then show "\<exists>e. detect_language lower fs text (Some ls) = Inl e"
    by (simp add: detect_language_def)
next
  assume h: "folder fs = Folder names
      \<and> list_all (\<lambda>name. endswith name ''.json''
                    \<longrightarrow> file_at fs (''frequency_tables/'' @ name) \<noteq> FileMissing) names"
  then obtain available where av: "get_available_languages fs = Inr available"
    by (simp add: get_available_languages_def listdir_def)
  show "detect_language lower fs text None \<noteq> Inl FileNotFoundError"
  proof
    assume a: "detect_language lower fs text None = Inl FileNotFoundError"
    show False
    proof (cases "load_tables fs available []")
      case (Inl e)
      with a av have "load_tables fs available [] = Inl FileNotFoundError"
        by (simp add: detect_language_def)
      from load_tables_error_source [OF this] obtain language
        where l: "language \<in> set available" "open_and_load fs language = Inl FileNotFoundError"
        by auto
      from available_listed [OF av l(1)] h
      have "language @ ''.json'' \<in> set names" "endswith (language @ ''.json'') ''.json''"
        by auto
      with h have "file_at fs (''frequency_tables/'' @ language @ ''.json'') \<noteq> FileMissing"
        by (auto simp: list_all_iff)
      with l(2) show False by (simp add: open_and_load_not_found)
    next
      case (Inr tables)
      with a av have "score_languages (Counter (characters (lower text))) (length text) tables []
          = Inl FileNotFoundError"
        by (simp add: detect_language_def)
      from score_languages_error_kind [OF this] show False by simp
    qed
  qed
next
  assume "folder fs = FolderMissing"
  then show "detect_language lower fs text None = Inl FileNotFoundError"
    by (simp add: detect_language_def get_available_languages_def listdir_def)
qed

theorem detect_language_not_found_witness:
  "list_all (\<lambda>p. \<not> isl (open_and_load sample_fs p)) [''english'']
   \<and> open_and_load sample_fs ''klingon'' = Inl FileNotFoundError
   \<and> detect_language ascii_lower sample_fs ''Tee'' (Some ([''english''] @ ''klingon'' # [''broken'']))
       = Inl FileNotFoundError
   \<and> (\<exists>e. detect_language ascii_lower sample_fs ''Tee'' (Some [''broken'', ''klingon'']) = Inl e)
   \<and> folder sample_fs = Folder [''english.json'', ''broken.json'', ''notes.txt'']
   \<and> list_all (\<lambda>name. endswith name ''.json''
                  \<longrightarrow> file_at sample_fs (''frequency_tables/'' @ name) \<noteq> FileMissing)
        [''english.json'', ''broken.json'', ''notes.txt'']
   \<and> detect_language ascii_lower sample_fs ''Tee'' None \<noteq> Inl FileNotFoundError
   \<and> folder missing_fs = FolderMissing
   \<and> detect_language ascii_lower missing_fs ''Tee'' None = Inl FileNotFoundError"
proof -
  have h1: "list_all (\<lambda>p. \<not> isl (open_and_load sample_fs p)) [''english'']"
    by (simp add: sample_english)
  have h2: "\<exists>l\<in>set [''broken'', ''klingon'']. open_and_load sample_fs l = Inl FileNotFoundError"
    by (simp add: sample_klingon)
  have h3: "folder sample_fs = Folder [''english.json'', ''broken.json'', ''notes.txt'']"
    by (simp add: sample_fs_def)
  have h4: "list_all (\<lambda>name. endswith name ''.json''
                  \<longrightarrow> file_at sample_fs (''frequency_tables/'' @ name) \<noteq> FileMissing)
        [''english.json'', ''broken.json'', ''notes.txt'']"
    by (simp add: sample_fs_def sample_files_def endswith_def)
  have h5: "folder missing_fs = FolderMissing" by (simp add: missing_fs_def)
  note t = detect_language_not_found [of sample_fs "[''english'']" "''klingon''" ascii_lower
      "''Tee''" "[''broken'']" "[''broken'', ''klingon'']"
      "[''english.json'', ''broken.json'', ''notes.txt'']"]
  note u = detect_language_not_found [of missing_fs "[]" "''klingon''" ascii_lower
      "''Tee''" "[]" "[]" "[]"]
  from t h1 sample_klingon
  have c1: "detect_language ascii_lower sample_fs ''Tee''
      (Some ([''english''] @ ''klingon'' # [''broken''])) = Inl FileNotFoundError"
    by (elim conjE) simp
  from t h2
  have c2: "\<exists>e. detect_language ascii_lower sample_fs ''Tee'' (Some [''broken'', ''klingon'']) = Inl e"
    by (elim conjE) simp
  from t h3 h4
  have c3: "detect_language ascii_lower sample_fs ''Tee'' None \<noteq> Inl FileNotFoundError"
    by (elim conjE) simp
  from u h5
  have c4: "detect_language ascii_lower missing_fs ''Tee'' None = Inl FileNotFoundError"
    by (elim conjE) simp
  show ?thesis
    by (intro conjI h1 sample_klingon c1 c2 h3 h4 c3 h5 c4)
qed

text \<open>
  The claim as first worded fails in three places. The file of \<^verbatim>\<open>klingon\<close> does not
  exist, and the list \<^verbatim>\<open>['broken', 'klingon']\<close> raises the error of the file that
  does not parse, which comes first. With no list given, a missing folder raises
  \<^verbatim>\<open>FileNotFoundError\<close>, and so does a folder that lists an entry whose file does
  not exist.
\<close>

theorem detect_language_other_errors:
  "open_and_load sample_fs ''klingon'' = Inl FileNotFoundError
   \<and> detect_language ascii_lower sample_fs ''tee'' (Some [''broken'', ''klingon''])
       = Inl JSONDecodeError
   \<and> detect_language ascii_lower missing_fs ''tee'' None = Inl FileNotFoundError
   \<and> detect_language ascii_lower dangling_fs ''tee'' None = Inl FileNotFoundError"
proof (intro conjI)
  show "open_and_load sample_fs ''klingon'' = Inl FileNotFoundError"
    by (rule sample_klingon)
  show "detect_language ascii_lower sample_fs ''tee'' (Some [''broken'', ''klingon''])
       = Inl JSONDecodeError"
    by (simp add: detect_language_def sample_broken)
  show "detect_language ascii_lower missing_fs ''tee'' None = Inl FileNotFoundError"
    by (simp add: detect_language_def get_available_languages_def listdir_def missing_fs_def)
  show "detect_language ascii_lower dangling_fs ''tee'' None = Inl FileNotFoundError"
    by (simp add: detect_language_def get_available_languages_def listdir_def dangling_fs_def
          endswith_def open_and_load_def)
qed

text \<open>
  Claim C10, amended. Lowering the empty text gives the empty text; then neither
  \<^verbatim>\<open>detect_language\<close> nor \<^verbatim>\<open>is_typical\<close> ever divides by zero, and when the text is
  empty, or no character of the lowered text is a key of the table of a language,
  the score that \<^verbatim>\<open>detect_language\<close> returns for the language is 1.
\<close>

theorem detect_language_no_division_by_zero:
  assumes "lower [] = []"
  shows "detect_language lower fs text languages \<noteq> Inl ZeroDivisionError
       \<and> is_typical lower fs text language t \<noteq> Inl ZeroDivisionError
       \<and> (detect_language lower fs text languages = Inr similarities
            \<and> dict_get similarities language = Some score
            \<and> open_and_load fs language = Inr (Object items)
            \<and> (text = [] \<or> set (characters (lower text)) \<inter> fst ` set items = {})
          \<longrightarrow> score = 1)"
proof (intro conjI impI)
  let ?tf = "Counter (characters (lower text))"
  note guard = counter_guard [of lower "text", OF assms]
  show "detect_language lower fs text languages \<noteq> Inl ZeroDivisionError"
  proof
    assume a: "detect_language lower fs text languages = Inl ZeroDivisionError"
    show False
    proof (cases "case languages of None \<Rightarrow> get_available_languages fs | Some ls \<Rightarrow> Inr ls")
      case (Inl e)
      with a have "get_available_languages fs = Inl ZeroDivisionError"
        by (auto simp: detect_language_def split: option.splits)
      then show False
        by (auto simp: get_available_languages_def listdir_def
              split: folder_state.splits sum.splits)
    next
      case ls: (Inr ls)
      show False
      proof (cases "load_tables fs ls []")
        case (Inl e)
        with a ls have "load_tables fs ls [] = Inl ZeroDivisionError"
          by (simp add: detect_language_def)
        from load_tables_error_source [OF this] obtain l
          where "open_and_load fs l = Inl ZeroDivisionError" by auto
        from open_and_load_error_kind [OF this] show False by simp
      next
        case (Inr tables)
        with a ls have "score_languages ?tf (length text) tables [] = Inl ZeroDivisionError"
          by (simp add: detect_language_def)
        with score_languages_no_zero_division [OF guard, of tables "[]"] show False by simp
      qed
    qed
  qed
  show "is_typical lower fs text language t \<noteq> Inl ZeroDivisionError"
  proof
    assume a: "is_typical lower fs text language t = Inl ZeroDivisionError"
    show False
    proof (cases "get_available_languages fs")
      case (Inl e)
      with a have "get_available_languages fs = Inl ZeroDivisionError"
        by (simp add: is_typical_def)
      then show False
        by (auto simp: get_available_languages_def listdir_def
              split: folder_state.splits sum.splits)
    next
      case av: (Inr available)
      show False
      proof (cases "open_and_load fs language")
        case (Inl e)
        with a av have "e = ZeroDivisionError"
          by (auto simp: is_typical_def split: if_splits)
        with open_and_load_error_kind [OF Inl] show False by simp
      next
        case (Inr loaded)
        show False
        proof (cases loaded)
          case NonObject
          with a av Inr show False by (auto simp: is_typical_def split: if_splits)
        next
          case (Object items')
          with a av Inr have "detect_similarity ?tf (length text) items' 0 = Inl ZeroDivisionError"
            by (auto simp: is_typical_def typical_similarity_eq split: if_splits sum.splits)
          with detect_similarity_no_zero_division [OF guard, of items' 0] show False by simp
        qed
      qed
    qed
  qed
next
  assume h: "detect_language lower fs text languages = Inr similarities
            \<and> dict_get similarities language = Some score
            \<and> open_and_load fs language = Inr (Object items)
            \<and> (text = [] \<or> set (characters (lower text)) \<inter> fst ` set items = {})"
  let ?tf = "Counter (characters (lower text))"
  from h obtain ls tables where tables: "load_tables fs ls [] = Inr tables"
    and sc: "score_languages ?tf (length text) tables [] = Inr similarities"
    by (auto simp: detect_language_def split: sum.splits)
  from h have "(language, score) \<in> set similarities"
    by (auto simp: dict_get_def dest: map_of_SomeD)
  from score_languages_entries [OF sc this] obtain items' similarity
    where t': "(language, Object items') \<in> set tables"
      and sim: "detect_similarity ?tf (length text) items' 0 = Inr similarity"
      and score: "score = 1 - similarity"
    by auto
  from load_tables_entries [OF tables t'] h have same: "items' = items" by auto
  from h assms have "\<forall>ch\<in>fst ` set items. ?tf ch = None"
    by (auto simp: Counter_def characters_def)
  from detect_similarity_no_common [OF this, of "length text" 0] sim same
  have "similarity = 0" by simp
  with score show "score = 1" by simp
qed

theorem detect_language_no_division_by_zero_witness:
  "ascii_lower [] = []
   \<and> detect_language ascii_lower sample_fs ''XYZ'' (Some [''english'']) = Inr [(''english'', 1)]
   \<and> dict_get [(''english'', 1 :: real)] ''english'' = Some 1
   \<and> open_and_load sample_fs ''english'' = Inr (Object [(''e'', Some (1 / 2)), (''t'', Some (1 / 4))])
   \<and> set (characters (ascii_lower ''XYZ'')) \<inter> fst ` set [(''e'', Some (1 / 2 :: real)), (''t'', Some (1 / 4))] = {}
   \<and> detect_language ascii_lower sample_fs ''XYZ'' (Some [''english'']) \<noteq> Inl ZeroDivisionError
   \<and> is_typical ascii_lower sample_fs ''XYZ'' ''english'' (2 / 5) \<noteq> Inl ZeroDivisionError
   \<and> detect_language ascii_lower sample_fs [] (Some [''english'']) = Inr [(''english'', 1)]"
proof -
  have e1: "detect_language ascii_lower sample_fs ''XYZ'' (Some [''english'']) = Inr [(''english'', 1)]"
    by (simp add: detect_language_def sample_english lower_XYZ Counter_def characters_def)
  have e2: "dict_get [(''english'', 1 :: real)] ''english'' = Some 1"
    by (simp add: dict_get_def)
  have e3: "set (characters (ascii_lower ''XYZ''))
      \<inter> fst ` set [(''e'', Some (1 / 2 :: real)), (''t'', Some (1 / 4))] = {}"
    by (simp add: lower_XYZ characters_def)
  have e4: "detect_language ascii_lower sample_fs [] (Some [''english'']) = Inr [(''english'', 1)]"
    by (simp add: detect_language_def sample_english ascii_lower_empty Counter_def characters_def)
  note t = detect_language_no_division_by_zero [of ascii_lower sample_fs "''XYZ''"
      "Some [''english'']" "''english''" "2 / 5" "[(''english'', 1)]" 1
      "[(''e'', Some (1 / 2)), (''t'', Some (1 / 4))]", OF ascii_lower_empty]
  have c1: "detect_language ascii_lower sample_fs ''XYZ'' (Some [''english''])
      \<noteq> Inl ZeroDivisionError"
    by (rule t [THEN conjunct1])
  have c2: "is_typical ascii_lower sample_fs ''XYZ'' ''english'' (2 / 5) \<noteq> Inl ZeroDivisionError"
    by (rule t [THEN conjunct2, THEN conjunct1])
  show ?thesis
    by (intro conjI ascii_lower_empty e1 e2 sample_english e3 c1 c2 e4)
qed

text \<open>
  The claim as first worded, on the characters of the text as given, fails at the
  text \<^verbatim>\<open>E\<close>: it shares no character with the keys \<^verbatim>\<open>e\<close> and \<^verbatim>\<open>t\<close> of the table,
  the lowered text does, and the score is one half.
\<close>

theorem detect_language_scores_lowered_text:
  "set (characters ''E'') \<inter> fst ` set [(''e'', Some (1 / 2 :: real)), (''t'', Some (1 / 4))] = {}
   \<and> open_and_load sample_fs ''english'' = Inr (Object [(''e'', Some (1 / 2)), (''t'', Some (1 / 4))])
   \<and> detect_language ascii_lower sample_fs ''E'' (Some [''english'']) = Inr [(''english'', 1 / 2)]
   \<and> (1 / 2 :: real) \<noteq> 1"
proof (intro conjI)
  show "set (characters ''E'') \<inter> fst ` set [(''e'', Some (1 / 2 :: real)), (''t'', Some (1 / 4))] = {}"
    by (simp add: characters_def)
  show "open_and_load sample_fs ''english'' = Inr (Object [(''e'', Some (1 / 2)), (''t'', Some (1 / 4))])"
    by (rule sample_english)
  show "detect_language ascii_lower sample_fs ''E'' (Some [''english'']) = Inr [(''english'', 1 / 2)]"
    by (simp add: detect_language_def sample_english lower_E Counter_def characters_def)
  show "(1 / 2 :: real) \<noteq> 1" by simp
qed

end
